theory Spec2Isabelle
  imports Complex_Main
begin

section \<open>dB band labels\<close>

text \<open>
  \<^verbatim>\<open>getDbLabel\<close> of \<^verbatim>\<open>src/src/App.tsx\<close> (lines 24-34): a chain of \<^verbatim>\<open>if (db < k) return ...\<close>.
  Every call site passes an integer (\<^verbatim>\<open>parseInt\<close>, \<^verbatim>\<open>Math.round\<close>, the event peak).
  The letter e-acute of the sixth label is its two UTF-8 bytes.
\<close>

definition getDbLabel :: "int \<Rightarrow> string" where
  "getDbLabel db =
     (if db < 30 then ''Whisper Quiet''
      else if db < 40 then ''Quiet Library''
      else if db < 50 then ''Quiet Room''
      else if db < 60 then ''Normal Conversation''
      else if db < 70 then ''Busy Office''
      else if db < 80 then ''Loud Caf'' @ [CHR 0xC3, CHR 0xA9]
      else if db < 90 then ''Vacuum / Traffic''
      else if db < 100 then ''Sound System''
      else ''Potential Damage!'')"

text \<open>
  The second copy of the component (the text after the separator in \<^verbatim>\<open>src/main.js\<close>,
  lines 186-196) differs in the last label only.
\<close>

definition getDbLabel_main :: "int \<Rightarrow> string" where
  "getDbLabel_main db =
     (if db < 30 then ''Whisper Quiet''
      else if db < 40 then ''Quiet Library''
      else if db < 50 then ''Quiet Room''
      else if db < 60 then ''Normal Conversation''
      else if db < 70 then ''Busy Office''
      else if db < 80 then ''Loud Caf'' @ [CHR 0xC3, CHR 0xA9]
      else if db < 90 then ''Vacuum / Traffic''
      else if db < 100 then ''Sound System''
      else ''Potential Hearing Damage!'')"

section \<open>Loudness estimator\<close>

text \<open>
  Lines 230-240 of \<^verbatim>\<open>update\<close>, with the samples and the arithmetic taken over the
  reals. The code computes in IEEE doubles on 32-bit float samples, and its reading can
  differ from this one (by one at a rounding tie, or at the floor \<open>1e-6\<close> of the RMS); the
  two agree on all-zero buffers, where every operation is exact. Apart from the readings
  of the sample buffers, the development uses the reading of a tick as a symbol only.
  \<^verbatim>\<open>bufferLength\<close> is the length of \<^verbatim>\<open>dataArray\<close>.
  The \<^verbatim>\<open>for\<close> loop over the index is \<open>sum_loop\<close> (its accumulator \<^verbatim>\<open>sum\<close> is \<open>acc\<close>); \<^verbatim>\<open>Math.round\<close> rounds
  halves upwards, as \<^const>\<open>round\<close> does.
\<close>

function sum_loop :: "real list \<Rightarrow> nat \<Rightarrow> real \<Rightarrow> real" where
  "sum_loop dataArray i acc =
     (if i < length dataArray
      then sum_loop dataArray (Suc i) (acc + dataArray ! i * dataArray ! i)
      else acc)"
  by pat_completeness auto
termination
  by (relation "measure (\<lambda>(d, i, s). length d - i)") auto

declare sum_loop.simps [simp del]

definition rms :: "real list \<Rightarrow> real" where
  "rms dataArray = sqrt (sum_loop dataArray 0 0 / real (length dataArray))"

definition baseDb :: "real list \<Rightarrow> real" where
  "baseDb dataArray =
     (if rms dataArray > 1 / 1000000 then 20 * log 10 (rms dataArray) + 80 else 0)"

definition currentDb :: "real list \<Rightarrow> int \<Rightarrow> int" where
  "currentDb dataArray calibration =
     round (max 0 (baseDb dataArray + real_of_int calibration))"

section \<open>State of the component\<close>

text \<open>
  The \<^verbatim>\<open>smoothingSpeed\<close> setting and the two object literals \<^verbatim>\<open>alphas\<close> and
  \<^verbatim>\<open>intervals\<close> of the settings effect (lines 169-172). A lookup that misses or
  yields a falsy value falls back to the right operand of \<^verbatim>\<open>||\<close>.
\<close>

datatype speed = Slow | Medium | Fast

definition alphas :: "speed \<Rightarrow> real option" where
  "alphas = map_of [(Slow, 1 / 10), (Medium, 1 / 4), (Fast, 6 / 10)]"

definition intervals :: "speed \<Rightarrow> int option" where
  "intervals = map_of [(Slow, 1000), (Medium, 700), (Fast, 400)]"

definition or_default :: "'a::zero option \<Rightarrow> 'a \<Rightarrow> 'a" where
  "or_default v d = (case v of None \<Rightarrow> d | Some x \<Rightarrow> if x = 0 then d else x)"

record settings =
  threshold :: int
  deviceId :: string
  durationThreshold :: real
  calibrationOffset :: int
  smoothingSpeed :: speed

text \<open>
  A \<^verbatim>\<open>SoundEvent\<close>. \<open>ident\<close> is the field \<^verbatim>\<open>id\<close> (a random string, an input of
  the callback here); \<open>timestamp\<close> is the instant, in milliseconds, that
  \<^verbatim>\<open>new Date().toLocaleTimeString\<close> renders.
\<close>

record SoundEvent =
  ident :: string
  timestamp :: int
  db :: int
  label :: string

text \<open>
  A call of \<^verbatim>\<open>window.electron.sendNotification(title, body)\<close>, with the instant of the
  call. The body is a template literal: its pieces are kept apart, so that no
  number formatting is modelled.
\<close>

datatype piece = Lit string | Num real

record notification =
  n_at :: int
  title :: string
  body :: "piece list"

text \<open>
  A pending \<^verbatim>\<open>setTimeout\<close> callback: it is due 1000 ms after the last clock reading
  of the tick that set it, and its closure holds \<^verbatim>\<open>currentDurationLimit\<close>.
\<close>

record timer =
  due :: int
  limit :: real

text \<open>
  The refs and the React state of \<^verbatim>\<open>App\<close> (lines 90-120), the pending timers, the
  notifications sent so far (newest first) and the number of updaters of
  \<^verbatim>\<open>setSessionHistory\<close> that React has queued and not yet run.

  An updater passed to a state setter runs when React next renders the component, after
  the callback that queued it has returned. The updaters of \<^verbatim>\<open>setPeak\<close>, \<^verbatim>\<open>setHistory\<close>
  and \<^verbatim>\<open>setEvents\<close> depend on the state through their argument only, so \<open>peak\<close>,
  \<open>history\<close> and \<open>events\<close> are the values with the queued updaters applied, in the
  order they were queued. The updater of \<^verbatim>\<open>setSessionHistory\<close> reads a ref when it
  runs, so its run is an event of its own.
\<close>

record state =
  lastNotifyTime :: int
  thresholdRef :: int
  smoothedDbRef :: real
  durationRef :: real
  loudStartTimeRef :: "int option"
  calibrationRef :: int
  smoothingAlphaRef :: real
  displayIntervalRef :: int
  lastDisplayUpdateRef :: int
  sessionPeakRef :: int
  eventPeakRef :: int
  isEventOccurring :: bool
  displayDb :: real
  peak :: int
  history :: "int list"
  isAlerting :: bool
  events :: "SoundEvent list"
  sessionHistory :: "int list"
  timers :: "timer list"
  notifications :: "notification list"
  sessionUpdates :: nat

definition init :: state where
  "init = \<lparr>lastNotifyTime = 0, thresholdRef = 80, smoothedDbRef = 0, durationRef = 2,
     loudStartTimeRef = None, calibrationRef = 0, smoothingAlphaRef = 1 / 4,
     displayIntervalRef = 700, lastDisplayUpdateRef = 0, sessionPeakRef = 0,
     eventPeakRef = 0, isEventOccurring = False, displayDb = 0, peak = 0,
     history = replicate 100 0, isAlerting = False, events = [], sessionHistory = [],
     timers = [], notifications = [], sessionUpdates = 0\<rparr>"

section \<open>The callbacks\<close>

text \<open>
  The clock readings of one run of \<^verbatim>\<open>update\<close>, in program order: \<^verbatim>\<open>now\<close> (line 226)
  and the two later calls of \<^verbatim>\<open>Date.now()\<close> (lines 273 and 276). Those of one run of
  the timer callback: the instant it starts (when it reads the peak and calls the
  notifier) and \<^verbatim>\<open>Date.now()\<close> (line 301); and those of the updater it passes to
  \<^verbatim>\<open>setEvents\<close>, which runs later: \<^verbatim>\<open>new Date()\<close> (line 296) and the random id
  (line 295).
\<close>

record clock =
  now :: int
  now_start :: int
  now_dur :: int

record fire =
  fire_at :: int
  fire_date :: int
  fire_now :: int
  fire_id :: string

text \<open>The settings effect (lines 157-173), without the write to local storage.\<close>

definition settings_effect :: "settings \<Rightarrow> state \<Rightarrow> state" where
  "settings_effect cfg s =
     s\<lparr>thresholdRef := threshold cfg,
       durationRef := durationThreshold cfg,
       calibrationRef := calibrationOffset cfg,
       smoothingAlphaRef := or_default (alphas (smoothingSpeed cfg)) (1 / 4),
       displayIntervalRef := or_default (intervals (smoothingSpeed cfg)) 700\<rparr>"

text \<open>
  Lines 272-276: \<^verbatim>\<open>!loudStartTimeRef.current\<close> holds for \<^verbatim>\<open>null\<close> and for 0, and
  then the start becomes the second clock reading.
\<close>

definition startOf :: "clock \<Rightarrow> state \<Rightarrow> int" where
  "startOf c s =
     (case loudStartTimeRef s of
        None \<Rightarrow> now_start c
      | Some t \<Rightarrow> if t = 0 then now_start c else t)"

definition sustainedDuration :: "clock \<Rightarrow> state \<Rightarrow> real" where
  "sustainedDuration c s = real_of_int (now_dur c - startOf c s) / 1000"

text \<open>The condition of line 282.\<close>

definition qualifies :: "clock \<Rightarrow> state \<Rightarrow> bool" where
  "qualifies c s \<longleftrightarrow>
     \<not> isEventOccurring s \<and> sustainedDuration c s \<ge> durationRef s
       \<and> now c - lastNotifyTime s > 7000"

text \<open>Lines 266-309: the threshold check and event tracking of \<^verbatim>\<open>update\<close>.\<close>

definition threshold_check :: "clock \<Rightarrow> int \<Rightarrow> state \<Rightarrow> state" where
  "threshold_check c level s =
     (let currentThreshold = thresholdRef s;
          currentDurationLimit = durationRef s
      in if level > currentThreshold then
           (let s1 = s\<lparr>isAlerting := True,
                        loudStartTimeRef := Some (startOf c s),
                        eventPeakRef := max (eventPeakRef s) level\<rparr>
            in if qualifies c s
               then s1\<lparr>isEventOccurring := True,
                        timers := timers s1 @
                          [\<lparr>due = now_dur c + 1000, limit = currentDurationLimit\<rparr>]\<rparr>
               else s1)
         else s\<lparr>isAlerting := False, loudStartTimeRef := None\<rparr>)"

text \<open>
  Lines 242-263 of \<^verbatim>\<open>update\<close>: smoothing, the throttled display, the peaks and the
  live history, for the reading \<open>level\<close> (\<^verbatim>\<open>currentDb\<close>). The visualizer data is left out.
\<close>

definition metering :: "clock \<Rightarrow> int \<Rightarrow> state \<Rightarrow> state" where
  "metering c level s =
     (let alpha = smoothingAlphaRef s;
          s1 = s\<lparr>smoothedDbRef := alpha * real_of_int level + (1 - alpha) * smoothedDbRef s\<rparr>;
          s2 = (if now c - lastDisplayUpdateRef s1 > displayIntervalRef s1
                then s1\<lparr>displayDb := smoothedDbRef s1, lastDisplayUpdateRef := now c\<rparr>
                else s1);
          s3 = s2\<lparr>peak := max (peak s2) level,
                  sessionPeakRef := max (sessionPeakRef s2) level\<rparr>
      in if now c mod 3 = 0
         then s3\<lparr>history := tl (history s3) @ [level]\<rparr>
         else s3)"

text \<open>
  Lines 224-312: one run of \<^verbatim>\<open>update\<close> on the samples of \<^verbatim>\<open>dataArray\<close>. The guard of
  line 225 never returns: \<^verbatim>\<open>analyser.current\<close> is set before the first run and no code
  clears it.
\<close>

definition update :: "clock \<Rightarrow> real list \<Rightarrow> state \<Rightarrow> state" where
  "update c dataArray s =
     (let level = currentDb dataArray (calibrationRef s)
      in threshold_check c level (metering c level s))"

text \<open>
  Lines 286-304: the callback of \<^verbatim>\<open>setTimeout\<close>, run for the pending timer \<open>tm\<close>. The
  event it logs has the peak the callback read; its timestamp and id are the readings
  \<open>fire_date\<close> and \<open>fire_id\<close> of the updater.
\<close>

definition emit :: "fire \<Rightarrow> timer \<Rightarrow> state \<Rightarrow> state" where
  "emit f tm s =
     (let peakToSend = eventPeakRef s
      in s\<lparr>notifications :=
             \<lparr>n_at = fire_at f, title = ''Sustained Noise Detected!'',
              body = [Lit ''Level reached '', Num (real_of_int peakToSend),
                      Lit '' dB for '', Num (limit tm), Lit ''+ sec.'']\<rparr>
             # notifications s,
           events := take 50
             (\<lparr>ident = fire_id f, timestamp = fire_date f, db = peakToSend,
               label = getDbLabel peakToSend\<rparr> # events s),
           lastNotifyTime := fire_now f,
           isEventOccurring := False,
           eventPeakRef := 0\<rparr>)"

text \<open>
  Lines 187-194: the callback of the session aggregator queues an updater and resets
  the session peak (line 193).
\<close>

definition session_tick :: "state \<Rightarrow> state" where
  "session_tick s = s\<lparr>sessionUpdates := Suc (sessionUpdates s), sessionPeakRef := 0\<rparr>"

text \<open>
  Lines 188-192: the updater, when React runs it. It reads \<^verbatim>\<open>sessionPeakRef.current\<close> as
  it is then, which is after the reset; \<^verbatim>\<open>slice(-480)\<close> keeps the last 480.
\<close>

definition session_updater :: "state \<Rightarrow> state" where
  "session_updater s =
     (let newHistory = sessionHistory s @ [sessionPeakRef s]
      in s\<lparr>sessionHistory := drop (length newHistory - 480) newHistory\<rparr>)"

text \<open>Lines 178-182: the cleanup of the monitoring effect.\<close>

definition cleanup :: "state \<Rightarrow> state" where
  "cleanup s = s\<lparr>peak := 0, history := replicate 100 0\<rparr>"

section \<open>Executions\<close>

text \<open>
  What can happen to the component: a run of \<^verbatim>\<open>update\<close>, the host running the
  oldest pending timer (only once it is due), the 30 s interval, React running the
  oldest queued updater of the session history, a change of settings followed by its
  effect, the cleanup, the RESET button of the peak.
\<close>

datatype event =
    Tick clock "real list"
  | Fire fire
  | SessionTick
  | RunSessionUpdater
  | Configure settings
  | Cleanup
  | ResetPeak

fun step :: "state \<Rightarrow> event \<Rightarrow> state" where
  "step s (Tick c dataArray) = update c dataArray s"
| "step s (Fire f) =
     (case timers s of
        [] \<Rightarrow> s
      | tm # rest \<Rightarrow>
          if due tm \<le> fire_at f then emit f tm (s\<lparr>timers := rest\<rparr>) else s)"
| "step s SessionTick = session_tick s"
| "step s RunSessionUpdater =
     (if sessionUpdates s = 0 then s
      else session_updater (s\<lparr>sessionUpdates := sessionUpdates s - 1\<rparr>))"
| "step s (Configure cfg) = settings_effect cfg s"
| "step s Cleanup = cleanup s"
| "step s ResetPeak = s\<lparr>peak := 0\<rparr>"

fun run :: "state \<Rightarrow> event list \<Rightarrow> state" where
  "run s [] = s"
| "run s (e # es) = run (step s e) es"

text \<open>
  The clock readings of a callback, in program order; a clock that never goes back.
  The reading \<open>fire_date\<close> is not among them: the updater that makes it runs after the
  callback, at a time this does not fix.
\<close>

fun stamps :: "event \<Rightarrow> int list" where
  "stamps (Tick c dataArray) = [now c, now_start c, now_dur c]"
| "stamps (Fire f) = [fire_at f, fire_now f]"
| "stamps e = []"

definition clock_ok :: "int \<Rightarrow> event list \<Rightarrow> bool" where
  "clock_ok t0 evs = sorted (t0 # concat (map stamps evs))"

text \<open>
  The runs of the timer callback in an execution, oldest first: the \<open>Fire\<close> events
  that found a due timer. Each sends one notification and logs one event.
\<close>

fun emitting :: "state \<Rightarrow> event \<Rightarrow> fire list" where
  "emitting s (Fire f) =
     (case timers s of
        [] \<Rightarrow> []
      | tm # rest \<Rightarrow> if due tm \<le> fire_at f then [f] else [])"
| "emitting s e = []"

fun emissions :: "state \<Rightarrow> event list \<Rightarrow> fire list" where
  "emissions s [] = []"
| "emissions s (e # es) = emitting s e @ emissions (step s e) es"

section \<open>Predicates on executions\<close>

text \<open>
  Kinds of events; the reading a tick computes in a state; runs of ticks that are all
  at or below, or all above, the threshold in force when they happen; the start reading
  of the first tick of a run; and the invariants of the reachable states.
\<close>

fun is_tick :: "event \<Rightarrow> bool" where
  "is_tick (Tick c d) = True"
| "is_tick e = False"

fun is_fire :: "event \<Rightarrow> bool" where
  "is_fire (Fire f) = True"
| "is_fire e = False"

fun is_configure :: "event \<Rightarrow> bool" where
  "is_configure (Configure cfg) = True"
| "is_configure e = False"

definition level_of :: "state \<Rightarrow> real list \<Rightarrow> int" where
  "level_of s d = currentDb d (calibrationRef s)"

fun all_low :: "state \<Rightarrow> event list \<Rightarrow> bool" where
  "all_low s [] = True"
| "all_low s (e # es) =
     ((case e of Tick c d \<Rightarrow> level_of s d \<le> thresholdRef s | _ \<Rightarrow> False)
      \<and> all_low (step s e) es)"

fun all_loud :: "state \<Rightarrow> event list \<Rightarrow> bool" where
  "all_loud s [] = True"
| "all_loud s (e # es) =
     ((case e of Tick c d \<Rightarrow> level_of s d > thresholdRef s \<and> now_start c \<noteq> 0 | _ \<Rightarrow> True)
      \<and> all_loud (step s e) es)"

fun first_tick :: "event list \<Rightarrow> int option" where
  "first_tick [] = None"
| "first_tick (Tick c d # es) = Some (now_start c)"
| "first_tick (e # es) = first_tick es"

definition pending_inv :: "state \<Rightarrow> bool" where
  "pending_inv s \<longleftrightarrow> length (timers s) \<le> 1 \<and> (isEventOccurring s \<longleftrightarrow> timers s \<noteq> [])"

definition time_inv :: "int \<Rightarrow> state \<Rightarrow> bool" where
  "time_inv T s \<longleftrightarrow>
     lastNotifyTime s \<le> T
     \<and> (\<forall>n\<in>set (notifications s). n_at n \<le> lastNotifyTime s)
     \<and> sorted_wrt (\<lambda>a b. a - b > 8000) (map n_at (notifications s))
     \<and> (\<forall>tm\<in>set (timers s). due tm > lastNotifyTime s + 8000)"

definition run_inv :: "int \<Rightarrow> state \<Rightarrow> bool" where
  "run_inv T s \<longleftrightarrow> pending_inv s \<and> time_inv T s"

section \<open>Sample inputs\<close>

text \<open>
  A buffer of 512 equal samples (\<^verbatim>\<open>frequencyBinCount\<close> for \<^verbatim>\<open>fftSize = 1024\<close>), a run
  of a callback whose clock readings all fall in one millisecond, and settings that
  differ from the defaults in the threshold only.
\<close>

definition tone :: "real \<Rightarrow> real list" where
  "tone a = replicate 512 a"

definition instant :: "int \<Rightarrow> clock" where
  "instant t = \<lparr>now = t, now_start = t, now_dur = t\<rparr>"

definition fire_at_time :: "int \<Rightarrow> fire" where
  "fire_at_time t = \<lparr>fire_at = t, fire_date = t, fire_now = t, fire_id = ''k3x9q2m1z''\<rparr>"

definition with_threshold :: "int \<Rightarrow> settings" where
  "with_threshold th = \<lparr>threshold = th, deviceId = ''default'', durationThreshold = 2,
     calibrationOffset = 0, smoothingSpeed = Medium\<rparr>"

definition fast_settings :: settings where
  "fast_settings = \<lparr>threshold = 80, deviceId = ''default'', durationThreshold = 2,
     calibrationOffset = 0, smoothingSpeed = Fast\<rparr>"

text \<open>
  With the threshold at 50: a tone of amplitude 1 reads 80 dB, one of amplitude 0.1
  reads 60 dB, silence reads 0 dB. Two alerts of one long loud stretch, 8001 ms apart;
  React runs the updater of the first 1500 ms after its callback. Then the session
  aggregator and its updater.
\<close>

definition late_render :: "event list" where
  "late_render =
     [Configure (with_threshold 50),
      Tick (instant 10000) (tone 1), Tick (instant 12000) (tone 1),
      Fire \<lparr>fire_at = 13000, fire_date = 14500, fire_now = 13000, fire_id = ''p7c4w1d8s''\<rparr>,
      Tick (instant 20001) (tone 1), Fire (fire_at_time 21001),
      SessionTick, RunSessionUpdater]"

text \<open>
  One loud tick followed by a silent one; then, ten seconds later, a quieter episode
  of two seconds and the run of its timer.
\<close>

definition cancelled_spike :: "event list" where
  "cancelled_spike =
     [Configure (with_threshold 50),
      Tick (instant 10000) (tone 1), Tick (instant 10016) (tone 0)]"

definition quieter_episode :: "event list" where
  "quieter_episode =
     [Tick (instant 20000) (tone (1 / 10)), Tick (instant 22000) (tone (1 / 10)),
      Fire (fire_at_time 23000)]"

text \<open>
  A first alert at 13 s, then a second loud stretch of 2.5 s that ends 6.5 s after it:
  within the cooldown, so nothing is scheduled and the last timer run finds nothing.
\<close>

definition suppressed_second :: "event list" where
  "suppressed_second =
     [Configure (with_threshold 50),
      Tick (instant 10000) (tone 1), Tick (instant 12000) (tone 1),
      Fire (fire_at_time 13000), Tick (instant 13016) (tone 0),
      Tick (instant 17000) (tone 1), Tick (instant 19500) (tone 1),
      Tick (instant 19516) (tone 0), Fire (fire_at_time 21000)]"

text \<open>
  Two seconds at 60 dB, the second tick scheduling the emission; and 1.9 s at 80 dB,
  short of the two seconds.
\<close>

definition qualified_run :: "event list" where
  "qualified_run =
     [Configure (with_threshold 50),
      Tick (instant 10000) (tone (1 / 10)), Tick (instant 12000) (tone (1 / 10))]"

definition interrupted :: "event list" where
  "interrupted =
     [Configure (with_threshold 50),
      Tick (instant 10000) (tone 1), Tick (instant 11900) (tone 1)]"

section \<open>Properties of the estimator\<close>

lemma sum_loop_closed:
  "sum_loop d i s = s + sum_list (map (\<lambda>x. x * x) (drop i d))"
proof (induction d i s rule: sum_loop.induct)
  case (1 d i s)
  show ?case
  proof (cases "i < length d")
    case True
    then have "drop i d = d ! i # drop (Suc i) d"
      by (simp add: Cons_nth_drop_Suc)
    with True "1" show ?thesis
      by (subst sum_loop.simps) simp
  next
    case False
    then show ?thesis
      by (subst sum_loop.simps) simp
  qed
qed

lemma sum_loop_mean: "sum_loop d 0 0 = (\<Sum>x\<leftarrow>d. x * x)"
  by (simp add: sum_loop_closed)

lemma sum_loop_zeros:
  assumes "\<forall>x\<in>set d. x = 0"
  shows "sum_loop d 0 0 = 0"
  using assms by (induction d) (simp_all add: sum_loop_mean)

lemma rms_zeros: "\<forall>x\<in>set d. x = 0 \<Longrightarrow> rms d = 0"
  by (simp add: rms_def sum_loop_zeros)

lemma baseDb_zeros: "\<forall>x\<in>set d. x = 0 \<Longrightarrow> baseDb d = 0"
  by (simp add: baseDb_def rms_zeros)

lemma round_max_int: "round (max 0 (real_of_int k)) = max 0 k"
  using round_of_int [of "max 0 k", where 'a = real] by (simp add: max_def)

lemma currentDb_zeros: "\<forall>x\<in>set d. x = 0 \<Longrightarrow> currentDb d cal = max 0 cal"
  by (simp add: currentDb_def baseDb_zeros round_max_int)

section \<open>Effect of the callbacks on each field\<close>

lemma metering_keeps:
  "timers (metering c l s) = timers s"
  "isEventOccurring (metering c l s) = isEventOccurring s"
  "loudStartTimeRef (metering c l s) = loudStartTimeRef s"
  "eventPeakRef (metering c l s) = eventPeakRef s"
  "isAlerting (metering c l s) = isAlerting s"
  "events (metering c l s) = events s"
  "notifications (metering c l s) = notifications s"
  "sessionHistory (metering c l s) = sessionHistory s"
  "lastNotifyTime (metering c l s) = lastNotifyTime s"
  "thresholdRef (metering c l s) = thresholdRef s"
  "durationRef (metering c l s) = durationRef s"
  "calibrationRef (metering c l s) = calibrationRef s"
  "smoothingAlphaRef (metering c l s) = smoothingAlphaRef s"
  "displayIntervalRef (metering c l s) = displayIntervalRef s"
  by (simp_all add: metering_def Let_def)

lemma metering_fields:
  "smoothedDbRef (metering c l s) =
     smoothingAlphaRef s * real_of_int l + (1 - smoothingAlphaRef s) * smoothedDbRef s"
  "displayDb (metering c l s) =
     (if now c - lastDisplayUpdateRef s > displayIntervalRef s
      then smoothedDbRef (metering c l s) else displayDb s)"
  "lastDisplayUpdateRef (metering c l s) =
     (if now c - lastDisplayUpdateRef s > displayIntervalRef s
      then now c else lastDisplayUpdateRef s)"
  "history (metering c l s) =
     (if now c mod 3 = 0 then tl (history s) @ [l] else history s)"
  by (simp_all add: metering_def Let_def)

lemma startOf_metering: "startOf c (metering c' l s) = startOf c s"
  by (simp add: startOf_def metering_keeps)

lemma qualifies_metering: "qualifies c (metering c' l s) = qualifies c s"
  by (simp add: qualifies_def sustainedDuration_def startOf_metering metering_keeps)

lemma threshold_check_keeps:
  "smoothedDbRef (threshold_check c l s) = smoothedDbRef s"
  "displayDb (threshold_check c l s) = displayDb s"
  "lastDisplayUpdateRef (threshold_check c l s) = lastDisplayUpdateRef s"
  "history (threshold_check c l s) = history s"
  "events (threshold_check c l s) = events s"
  "notifications (threshold_check c l s) = notifications s"
  "sessionHistory (threshold_check c l s) = sessionHistory s"
  "lastNotifyTime (threshold_check c l s) = lastNotifyTime s"
  "thresholdRef (threshold_check c l s) = thresholdRef s"
  "durationRef (threshold_check c l s) = durationRef s"
  "calibrationRef (threshold_check c l s) = calibrationRef s"
  "smoothingAlphaRef (threshold_check c l s) = smoothingAlphaRef s"
  "displayIntervalRef (threshold_check c l s) = displayIntervalRef s"
  by (simp_all add: threshold_check_def Let_def)

lemma threshold_check_fields:
  "timers (threshold_check c l s) =
     (if l > thresholdRef s \<and> qualifies c s
      then timers s @ [\<lparr>due = now_dur c + 1000, limit = durationRef s\<rparr>]
      else timers s)"
  "isEventOccurring (threshold_check c l s) \<longleftrightarrow>
     isEventOccurring s \<or> (l > thresholdRef s \<and> qualifies c s)"
  "loudStartTimeRef (threshold_check c l s) =
     (if l > thresholdRef s then Some (startOf c s) else None)"
  "isAlerting (threshold_check c l s) \<longleftrightarrow> l > thresholdRef s"
  "eventPeakRef (threshold_check c l s) =
     (if l > thresholdRef s then max (eventPeakRef s) l else eventPeakRef s)"
  by (simp_all add: threshold_check_def Let_def)

lemma update_timers:
  "timers (update c d s) =
     (if level_of s d > thresholdRef s \<and> qualifies c s
      then timers s @ [\<lparr>due = now_dur c + 1000, limit = durationRef s\<rparr>]
      else timers s)"
  by (simp add: update_def Let_def level_of_def threshold_check_fields metering_keeps
        qualifies_metering)

lemma update_occurring:
  "isEventOccurring (update c d s) \<longleftrightarrow>
     isEventOccurring s \<or> (level_of s d > thresholdRef s \<and> qualifies c s)"
  by (simp add: update_def Let_def level_of_def threshold_check_fields metering_keeps
        qualifies_metering)

lemma update_loudStart:
  "loudStartTimeRef (update c d s) =
     (if level_of s d > thresholdRef s then Some (startOf c s) else None)"
  by (simp add: update_def Let_def level_of_def threshold_check_fields metering_keeps
        startOf_metering)

lemma update_alerting:
  "isAlerting (update c d s) \<longleftrightarrow> level_of s d > thresholdRef s"
  by (simp add: update_def Let_def level_of_def threshold_check_fields metering_keeps)

lemma update_eventPeak:
  "eventPeakRef (update c d s) =
     (if level_of s d > thresholdRef s then max (eventPeakRef s) (level_of s d)
      else eventPeakRef s)"
  by (simp add: update_def Let_def level_of_def threshold_check_fields metering_keeps)

lemma update_history:
  "history (update c d s) =
     (if now c mod 3 = 0 then tl (history s) @ [level_of s d] else history s)"
  by (simp add: update_def Let_def level_of_def threshold_check_keeps metering_fields)

lemma update_keeps:
  "events (update c d s) = events s"
  "notifications (update c d s) = notifications s"
  "sessionHistory (update c d s) = sessionHistory s"
  "lastNotifyTime (update c d s) = lastNotifyTime s"
  "thresholdRef (update c d s) = thresholdRef s"
  "durationRef (update c d s) = durationRef s"
  "calibrationRef (update c d s) = calibrationRef s"
  "smoothingAlphaRef (update c d s) = smoothingAlphaRef s"
  "displayIntervalRef (update c d s) = displayIntervalRef s"
  by (simp_all add: update_def Let_def threshold_check_keeps metering_keeps)

lemma update_smoothed:
  "smoothedDbRef (update c d s) =
     smoothingAlphaRef s * real_of_int (level_of s d)
       + (1 - smoothingAlphaRef s) * smoothedDbRef s"
  by (simp add: update_def Let_def level_of_def threshold_check_keeps metering_fields)

lemma update_display:
  "displayDb (update c d s) =
     (if now c - lastDisplayUpdateRef s > displayIntervalRef s
      then smoothedDbRef (update c d s) else displayDb s)"
  "lastDisplayUpdateRef (update c d s) =
     (if now c - lastDisplayUpdateRef s > displayIntervalRef s
      then now c else lastDisplayUpdateRef s)"
  by (simp_all add: update_def Let_def threshold_check_keeps metering_fields)

lemma emit_fields:
  "notifications (emit f tm s) =
     \<lparr>n_at = fire_at f, title = ''Sustained Noise Detected!'',
      body = [Lit ''Level reached '', Num (real_of_int (eventPeakRef s)),
              Lit '' dB for '', Num (limit tm), Lit ''+ sec.'']\<rparr> # notifications s"
  "events (emit f tm s) =
     take 50 (\<lparr>ident = fire_id f, timestamp = fire_date f, db = eventPeakRef s,
               label = getDbLabel (eventPeakRef s)\<rparr> # events s)"
  "lastNotifyTime (emit f tm s) = fire_now f"
  "isEventOccurring (emit f tm s) = False"
  "eventPeakRef (emit f tm s) = 0"
  "timers (emit f tm s) = timers s"
  "history (emit f tm s) = history s"
  "sessionHistory (emit f tm s) = sessionHistory s"
  "loudStartTimeRef (emit f tm s) = loudStartTimeRef s"
  "thresholdRef (emit f tm s) = thresholdRef s"
  "durationRef (emit f tm s) = durationRef s"
  "calibrationRef (emit f tm s) = calibrationRef s"
  "smoothingAlphaRef (emit f tm s) = smoothingAlphaRef s"
  "displayIntervalRef (emit f tm s) = displayIntervalRef s"
  by (simp_all add: emit_def Let_def)

lemma pending_inv_init: "pending_inv init"
  by (simp add: pending_inv_def init_def)

lemma pending_inv_step: "pending_inv s \<Longrightarrow> pending_inv (step s e)"
proof (cases e)
  case (Tick c d)
  assume "pending_inv s"
  then show ?thesis
    unfolding Tick pending_inv_def
    by (auto simp: update_timers update_occurring qualifies_def)
next
  case (Fire f)
  assume "pending_inv s"
  then show ?thesis
    unfolding Fire pending_inv_def
    by (auto simp: emit_fields split: list.splits)
qed (simp_all add: pending_inv_def session_tick_def session_updater_def Let_def settings_effect_def cleanup_def)

lemma pending_inv_run: "pending_inv s \<Longrightarrow> pending_inv (run s evs)"
  by (induction evs arbitrary: s) (simp_all add: pending_inv_step)

lemma step_refs:
  "\<not> is_configure e \<Longrightarrow> smoothingAlphaRef (step s e) = smoothingAlphaRef s"
  "\<not> is_configure e \<Longrightarrow> displayIntervalRef (step s e) = displayIntervalRef s"
  by (cases e; simp add: update_keeps emit_fields session_tick_def session_updater_def Let_def cleanup_def
        split: list.splits)+

lemma run_refs:
  "\<forall>e\<in>set evs. \<not> is_configure e \<Longrightarrow>
     smoothingAlphaRef (run s evs) = smoothingAlphaRef s
     \<and> displayIntervalRef (run s evs) = displayIntervalRef s"
  by (induction evs arbitrary: s) (simp_all add: step_refs)

lemma time_inv_init: "time_inv 0 init"
  by (simp add: time_inv_def init_def)

lemma time_inv_later: "time_inv T s \<Longrightarrow> T \<le> T' \<Longrightarrow> time_inv T' s"
  by (auto simp: time_inv_def)

lemma time_inv_update:
  assumes "time_inv T s" and "T \<le> now c" and "now c \<le> now_dur c"
  shows "time_inv (now_dur c) (update c d s)"
proof -
  have "due tm > lastNotifyTime s + 8000"
    if "tm \<in> set (timers (update c d s))" for tm
  proof (cases "tm \<in> set (timers s)")
    case True
    with assms(1) show ?thesis by (simp add: time_inv_def)
  next
    case False
    with that have q: "qualifies c s" and tm: "tm = \<lparr>due = now_dur c + 1000, limit = durationRef s\<rparr>"
      by (auto simp: update_timers split: if_splits)
    from q have "now c - lastNotifyTime s > 7000"
      by (simp add: qualifies_def)
    with assms(3) tm show ?thesis by simp
  qed
  moreover have "lastNotifyTime s \<le> now_dur c"
    using assms by (simp add: time_inv_def)
  ultimately show ?thesis
    using assms(1) by (simp add: time_inv_def update_keeps)
qed

lemma time_inv_emit:
  assumes ti: "time_inv T s" and tms: "timers s = [tm]" and d: "due tm \<le> fire_at f"
    and o: "fire_at f \<le> fire_now f"
  shows "time_inv (fire_now f) (emit f tm (s\<lparr>timers := []\<rparr>))"
proof -
  let ?s' = "emit f tm (s\<lparr>timers := []\<rparr>)"
  from ti tms have late: "due tm > lastNotifyTime s + 8000"
    by (simp add: time_inv_def)
  have n: "\<forall>n\<in>set (notifications s). n_at n \<le> lastNotifyTime s"
    and sn: "sorted_wrt (\<lambda>a b. a - b > 8000) (map n_at (notifications s))"
    using ti by (simp_all add: time_inv_def)
  have 1: "\<forall>n\<in>set (notifications ?s'). n_at n \<le> fire_now f"
    using n late d o by (auto simp: emit_fields)
  have 3: "sorted_wrt (\<lambda>a b. a - b > 8000) (map n_at (notifications ?s'))"
    using sn n late d by (auto simp: emit_fields)
  show ?thesis
    unfolding time_inv_def using 1 3 by (simp add: emit_fields)
qed

lemma run_inv_step:
  assumes "run_inv T s" and "sorted (T # stamps e)"
  shows "run_inv (last (T # stamps e)) (step s e)"
proof -
  from assms(1) have p: "pending_inv s" and t: "time_inv T s"
    by (simp_all add: run_inv_def)
  have "time_inv (last (T # stamps e)) (step s e)"
  proof (cases e)
    case (Tick c d)
    with assms(2) t show ?thesis
      by (simp add: time_inv_update)
  next
    case (Fire f)
    show ?thesis
    proof (cases "timers s")
      case Nil
      with Fire assms(2) t show ?thesis
        by (simp add: time_inv_later)
    next
      case (Cons tm rest)
      with p have r: "rest = []" by (simp add: pending_inv_def)
      show ?thesis
      proof (cases "due tm \<le> fire_at f")
        case True
        with Fire Cons r assms(2) t show ?thesis
          by (simp add: time_inv_emit)
      next
        case False
        with Fire Cons assms(2) t show ?thesis
          by (simp add: time_inv_later)
      qed
    qed
  qed (use t in \<open>simp_all add: time_inv_def session_tick_def session_updater_def Let_def settings_effect_def
        cleanup_def\<close>)
  with p show ?thesis
    by (simp add: run_inv_def pending_inv_step)
qed

lemma sorted_le_last:
  "sorted ((T::int) # xs) \<Longrightarrow> x \<in> set (T # xs) \<Longrightarrow> x \<le> last (T # xs)"
proof (induction xs arbitrary: T x)
  case Nil
  then show ?case by simp
next
  case (Cons y ys)
  from Cons.prems(1) have s: "sorted (y # ys)" and le: "T \<le> y"
    by simp_all
  have "y \<le> last (y # ys)"
    using Cons.IH [OF s, of y] by simp
  moreover have "x \<le> last (y # ys)" if "x \<in> set (y # ys)"
    using Cons.IH [OF s that] .
  ultimately show ?case
    using Cons.prems(2) le by auto
qed

lemma sorted_split:
  "sorted ((T::int) # xs @ ys) \<longleftrightarrow> sorted (T # xs) \<and> sorted (last (T # xs) # ys)"
proof -
  have "sorted (T # xs @ ys) \<longleftrightarrow>
          sorted (T # xs) \<and> sorted ys \<and> (\<forall>x\<in>set (T # xs). \<forall>y\<in>set ys. x \<le> y)"
    using sorted_append [of "T # xs" ys] by simp
  moreover have "(\<forall>x\<in>set (T # xs). \<forall>y\<in>set ys. x \<le> y) \<longleftrightarrow> (\<forall>y\<in>set ys. last (T # xs) \<le> y)"
    if "sorted (T # xs)"
  proof
    assume a: "\<forall>x\<in>set (T # xs). \<forall>y\<in>set ys. x \<le> y"
    have "last (T # xs) \<in> set (T # xs)"
      by (rule last_in_set) simp
    with a show "\<forall>y\<in>set ys. last (T # xs) \<le> y" by blast
  next
    assume a: "\<forall>y\<in>set ys. last (T # xs) \<le> y"
    show "\<forall>x\<in>set (T # xs). \<forall>y\<in>set ys. x \<le> y"
    proof (intro ballI)
      fix x y assume "x \<in> set (T # xs)" and "y \<in> set ys"
      with a sorted_le_last [OF that] show "x \<le> y" by fastforce
    qed
  qed
  ultimately show ?thesis
    by (auto simp del: last.simps)
qed

lemma clock_ok_Cons:
  "clock_ok T (e # es) \<longleftrightarrow> sorted (T # stamps e) \<and> clock_ok (last (T # stamps e)) es"
  unfolding clock_ok_def using sorted_split [of T "stamps e" "concat (map stamps es)"]
  by simp

lemma run_inv_run: "run_inv T s \<Longrightarrow> clock_ok T evs \<Longrightarrow> \<exists>T'. run_inv T' (run s evs)"
proof (induction evs arbitrary: s T)
  case Nil
  then show ?case by auto
next
  case (Cons e es)
  from Cons.prems have "run_inv (last (T # stamps e)) (step s e)"
    and "clock_ok (last (T # stamps e)) es"
    by (simp_all add: clock_ok_Cons run_inv_step del: last.simps)
  then show ?case
    using Cons.IH by simp
qed

lemma run_inv_reach: "clock_ok 0 evs \<Longrightarrow> \<exists>T. run_inv T (run init evs)"
  by (rule run_inv_run [of 0]) (simp_all add: run_inv_def pending_inv_init time_inv_init)

section \<open>Readings of the sample buffers\<close>

lemma rms_tone: "rms (tone a) = \<bar>a\<bar>"
  by (simp add: rms_def tone_def sum_loop_mean sum_list_replicate)

lemma log_tenth: "log 10 (1 / 10) = - 1"
  using log_inverse [of 10 10] by (simp add: inverse_eq_divide)

lemma currentDb_tone_0: "currentDb (tone 0) cal = max 0 cal"
  by (rule currentDb_zeros) (simp add: tone_def)

lemma currentDb_tone_1: "currentDb (tone 1) cal = max 0 (80 + cal)"
proof -
  have "baseDb (tone 1) + real_of_int cal = real_of_int (80 + cal)"
    by (simp add: baseDb_def rms_tone)
  then show ?thesis
    by (simp only: currentDb_def round_max_int)
qed

lemma currentDb_tone_tenth: "currentDb (tone (1 / 10)) cal = max 0 (60 + cal)"
proof -
  have "baseDb (tone (1 / 10)) + real_of_int cal = real_of_int (60 + cal)"
    by (simp add: baseDb_def rms_tone log_tenth)
  then show ?thesis
    by (simp only: currentDb_def round_max_int)
qed

section \<open>Silence (C5)\<close>

text \<open>
  C5, as stated, fails: on 512 zero samples with a calibration offset of +30 the
  reading is 30, not 0. The offset is added after the silence floor.
\<close>

theorem silence_counterexample: "currentDb (replicate 512 0) 30 \<noteq> 0"
  by (simp add: currentDb_zeros)

text \<open>
  C5, amended. For every all-zero sample buffer and every calibration offset, the
  reading is \<open>max 0 offset\<close>: 0 when the offset is zero or negative, the offset itself
  when it is positive.
\<close>

theorem silence_reading:
  "\<forall>x\<in>set d. x = 0 \<Longrightarrow> currentDb d cal = max 0 cal"
  by (fact currentDb_zeros)

theorem silence_reading_witness:
  "set (replicate 512 (0::real)) = {0}
   \<and> currentDb (replicate 512 0) (- 12) = 0 \<and> currentDb (replicate 512 0) 12 = 12"
  using silence_reading [of "replicate 512 0" "- 12"] silence_reading [of "replicate 512 0" 12]
  by simp

section \<open>dB bands (C9)\<close>

text \<open>
  C9, as stated, fails: the value 90 is not below the breakpoint 90, so neither copy of
  \<^verbatim>\<open>getDbLabel\<close> labels it 'Vacuum / Traffic'; and the copy in \<^verbatim>\<open>src/src/App.tsx\<close>
  does not label 100 'Potential Hearing Damage!'.
\<close>

theorem label_90_counterexample:
  "getDbLabel 90 \<noteq> ''Vacuum / Traffic'' \<and> getDbLabel_main 90 \<noteq> ''Vacuum / Traffic''
   \<and> getDbLabel 100 \<noteq> ''Potential Hearing Damage!''"
  by (simp add: getDbLabel_def getDbLabel_main_def)

text \<open>
  C9, amended. Both copies label every value below 30 'Whisper Quiet', every value from
  80 up to 89 'Vacuum / Traffic' and the value 90 'Sound System'; every value at or above
  100 is labelled 'Potential Damage!' by \<^verbatim>\<open>src/src/App.tsx\<close> and 'Potential Hearing Damage!'
  by the copy in \<^verbatim>\<open>src/main.js\<close>. The event that the timer callback logs carries the
  peak and the label \<^verbatim>\<open>getDbLabel\<close> gives that peak.
\<close>

theorem label_bands:
  "(a < 30 \<longrightarrow> getDbLabel a = ''Whisper Quiet'' \<and> getDbLabel_main a = ''Whisper Quiet'')
   \<and> (80 \<le> b \<and> b < 90 \<longrightarrow>
        getDbLabel b = ''Vacuum / Traffic'' \<and> getDbLabel_main b = ''Vacuum / Traffic'')
   \<and> getDbLabel 90 = ''Sound System'' \<and> getDbLabel_main 90 = ''Sound System''
   \<and> (100 \<le> k \<longrightarrow>
        getDbLabel k = ''Potential Damage!'' \<and> getDbLabel_main k = ''Potential Hearing Damage!'')
   \<and> hd (events (emit f tm s)) =
        \<lparr>ident = fire_id f, timestamp = fire_date f, db = eventPeakRef s,
         label = getDbLabel (eventPeakRef s)\<rparr>"
  by (simp add: getDbLabel_def getDbLabel_main_def emit_fields)

theorem label_bands_witness:
  "(29::int) < 30 \<and> getDbLabel 29 = ''Whisper Quiet''
   \<and> (80::int) \<le> 89 \<and> (89::int) < 90 \<and> getDbLabel 89 = ''Vacuum / Traffic''
   \<and> (100::int) \<le> 100 \<and> getDbLabel 100 = ''Potential Damage!''
   \<and> getDbLabel_main 100 = ''Potential Hearing Damage!''"
  using label_bands [of 29 89 100] by simp

section \<open>Evaluation of sample runs\<close>

lemmas eval_defs = update_def metering_def threshold_check_def qualifies_def
  sustainedDuration_def startOf_def emit_def session_tick_def session_updater_def cleanup_def
  settings_effect_def init_def Let_def alphas_def intervals_def or_default_def
  instant_def fire_at_time_def with_threshold_def
  currentDb_tone_0 currentDb_tone_1 currentDb_tone_tenth

lemma table_alpha:
  "or_default (alphas sp) (1 / 4) = (case sp of Slow \<Rightarrow> 1 / 10 | Medium \<Rightarrow> 1 / 4 | Fast \<Rightarrow> 6 / 10)"
  by (cases sp) (simp_all add: alphas_def or_default_def)

lemma table_interval:
  "or_default (intervals sp) 700 = (case sp of Slow \<Rightarrow> 1000 | Medium \<Rightarrow> 700 | Fast \<Rightarrow> 400)"
  by (cases sp) (simp_all add: intervals_def or_default_def)

section \<open>The smoother (C6)\<close>

text \<open>
  C6. After the settings effect has run for a smoothing speed, and whatever happens next
  short of another change of settings, every tick replaces \<open>smoothedDb\<close> by
  \<open>alpha * currentDb + (1 - alpha) * smoothedDb\<close>, throttled or not, where alpha and the
  refresh interval are 0.10 and 1000 ms for slow, 0.25 and 700 ms for medium, 0.60 and
  400 ms for fast; the display value and \<open>lastDisplayUpdate\<close> change exactly on the ticks
  with \<open>now - lastDisplayUpdate > refresh\<close>, to the new smoothed value and to \<open>now\<close>.
\<close>
theorem smoother_step:
  fixes cfg :: settings and s0 :: state and c :: clock and d :: "real list"
  assumes "\<forall>e\<in>set evs. \<not> is_configure e"
  defines "s \<equiv> run (step s0 (Configure cfg)) evs"
  defines "alpha \<equiv> (case smoothingSpeed cfg of Slow \<Rightarrow> 1 / 10 | Medium \<Rightarrow> 1 / 4 | Fast \<Rightarrow> 6 / 10)"
  defines "refresh \<equiv> (case smoothingSpeed cfg of Slow \<Rightarrow> 1000 | Medium \<Rightarrow> 700 | Fast \<Rightarrow> 400)"
  shows "smoothedDbRef (update c d s) =
           alpha * real_of_int (level_of s d) + (1 - alpha) * smoothedDbRef s
         \<and> (if now c - lastDisplayUpdateRef s > refresh
            then displayDb (update c d s) = smoothedDbRef (update c d s)
               \<and> lastDisplayUpdateRef (update c d s) = now c
            else displayDb (update c d s) = displayDb s
               \<and> lastDisplayUpdateRef (update c d s) = lastDisplayUpdateRef s)"
proof -
  have a: "smoothingAlphaRef s = alpha"
    using run_refs [OF assms(1)]
    by (simp add: s_def alpha_def settings_effect_def table_alpha)
  have r: "displayIntervalRef s = refresh"
    using run_refs [OF assms(1)]
    by (simp add: s_def refresh_def settings_effect_def table_interval)
  show ?thesis
    using a r by (simp add: update_smoothed update_display)
qed

theorem smoother_step_witness:
  "list_all (\<lambda>e. \<not> is_configure e) [Tick (instant 1000) (tone 1)]
   \<and> smoothedDbRef (update (instant 1200) (tone 1)
        (run (step init (Configure fast_settings)) [Tick (instant 1000) (tone 1)])) = 336 / 5
   \<and> displayDb (update (instant 1200) (tone 1)
        (run (step init (Configure fast_settings)) [Tick (instant 1000) (tone 1)])) = 48
   \<and> displayDb (update (instant 1401) (tone 1)
        (run (step init (Configure fast_settings)) [Tick (instant 1000) (tone 1)])) = 336 / 5"
  using smoother_step [of "[Tick (instant 1000) (tone 1)]" "instant 1200" "tone 1" init fast_settings]
    smoother_step [of "[Tick (instant 1000) (tone 1)]" "instant 1401" "tone 1" init fast_settings]
  by (simp add: eval_defs fast_settings_def level_of_def)

section \<open>Residual event peak (C7)\<close>

text \<open>
  C7 on the code. With the threshold at 50, one tick at 80 dB followed by one silent
  tick leaves the detector idle (no start time, no episode, no pending timer) with an
  event peak of 80. A later sustained episode that never exceeds 60 dB is then logged
  with a peak of 80: the branch for readings at or below the threshold does not reset
  the peak, only the timer callback does.
\<close>
theorem stale_peak_after_cancelled_episode:
  "loudStartTimeRef (run init cancelled_spike) = None
   \<and> \<not> isEventOccurring (run init cancelled_spike)
   \<and> timers (run init cancelled_spike) = []
   \<and> eventPeakRef (run init cancelled_spike) = 80
   \<and> map db (events (run init (cancelled_spike @ quieter_episode))) = [80]
   \<and> map label (events (run init (cancelled_spike @ quieter_episode))) = [''Vacuum / Traffic'']"
  by (simp add: cancelled_spike_def quieter_episode_def eval_defs getDbLabel_def)

section \<open>Bounded buffers (C8)\<close>

lemma length_step:
  assumes "length (history s) \<le> 100" and "length (sessionHistory s) \<le> 480"
    and "length (events s) \<le> 50"
  shows "length (history (step s e)) \<le> 100 \<and> length (sessionHistory (step s e)) \<le> 480
    \<and> length (events (step s e)) \<le> 50"
proof (cases e)
  case (Tick c d)
  with assms show ?thesis
    by (cases "history s") (simp_all add: update_history update_keeps)
next
  case (Fire f)
  with assms show ?thesis
    by (simp add: emit_fields split: list.splits)
next
  case RunSessionUpdater
  with assms show ?thesis
    by (auto simp: session_updater_def Let_def)
qed (use assms in \<open>simp_all add: session_tick_def Let_def settings_effect_def cleanup_def\<close>)

lemma length_run:
  assumes "length (history s) \<le> 100" and "length (sessionHistory s) \<le> 480"
    and "length (events s) \<le> 50"
  shows "length (history (run s evs)) \<le> 100 \<and> length (sessionHistory (run s evs)) \<le> 480
    \<and> length (events (run s evs)) \<le> 50"
  using assms
proof (induction evs arbitrary: s)
  case Nil
  then show ?case by simp
next
  case (Cons e es)
  from length_step [OF Cons.prems, of e] show ?case
    by (simp add: Cons.IH)
qed

lemma take_append_take: "take n (xs @ take n ys) = take n (xs @ ys)"
  by (simp add: min_def)

lemma emitting_step:
  "emitting s e = [] \<Longrightarrow> events (step s e) = events s \<and> notifications (step s e) = notifications s
     \<and> lastNotifyTime (step s e) = lastNotifyTime s"
  by (cases e) (simp_all add: update_keeps session_tick_def session_updater_def Let_def
      settings_effect_def cleanup_def split: list.splits if_splits)

lemma emitting_cases:
  "emitting s e = [] \<or> (\<exists>f tm rest. e = Fire f \<and> emitting s e = [f] \<and> timers s = tm # rest
     \<and> due tm \<le> fire_at f \<and> step s e = emit f tm (s\<lparr>timers := rest\<rparr>))"
  by (cases e) (simp_all split: list.splits)

lemma log_of_emissions:
  "map timestamp (events (run s evs)) =
     take 50 (rev (map fire_date (emissions s evs)) @ map timestamp (events s))
   \<and> map ident (events (run s evs)) =
     take 50 (rev (map fire_id (emissions s evs)) @ map ident (events s))"
  if "length (events s) \<le> 50"
  using that
proof (induction evs arbitrary: s)
  case Nil
  then show ?case by simp
next
  case (Cons e es)
  from emitting_cases [of s e] show ?case
  proof
    assume none: "emitting s e = []"
    with Cons.prems have "length (events (step s e)) \<le> 50"
      by (simp add: emitting_step)
    from Cons.IH [OF this] none show ?thesis
      by (simp add: emitting_step)
  next
    assume "\<exists>f tm rest. e = Fire f \<and> emitting s e = [f] \<and> timers s = tm # rest
      \<and> due tm \<le> fire_at f \<and> step s e = emit f tm (s\<lparr>timers := rest\<rparr>)"
    then obtain f tm rest where em: "emitting s e = [f]"
      and st: "step s e = emit f tm (s\<lparr>timers := rest\<rparr>)"
      by blast
    have ev: "events (step s e) =
        take 50 (\<lparr>ident = fire_id f, timestamp = fire_date f, db = eventPeakRef s,
                  label = getDbLabel (eventPeakRef s)\<rparr> # events s)"
      by (simp add: st emit_fields)
    then have le: "length (events (step s e)) \<le> 50"
      by simp
    have m: "map timestamp (events (step s e)) = take 50 (fire_date f # map timestamp (events s))"
      "map ident (events (step s e)) = take 50 (fire_id f # map ident (events s))"
      by (simp_all add: ev take_map del: take_Suc_Cons)
    have "map timestamp (events (run (step s e) es)) =
         take 50 (rev (map fire_date (emissions (step s e) es))
           @ take 50 (fire_date f # map timestamp (events s)))"
      using Cons.IH [OF le] by (simp only: m)
    also have "\<dots> = take 50 (rev (map fire_date (emissions (step s e) es))
           @ fire_date f # map timestamp (events s))"
      by (rule take_append_take)
    finally have 1: "map timestamp (events (run s (e # es))) =
         take 50 (rev (map fire_date (emissions s (e # es))) @ map timestamp (events s))"
      by (simp add: em)
    have "map ident (events (run (step s e) es)) =
         take 50 (rev (map fire_id (emissions (step s e) es))
           @ take 50 (fire_id f # map ident (events s)))"
      using Cons.IH [OF le] by (simp only: m)
    also have "\<dots> = take 50 (rev (map fire_id (emissions (step s e) es))
           @ fire_id f # map ident (events s))"
      by (rule take_append_take)
    finally have 2: "map ident (events (run s (e # es))) =
         take 50 (rev (map fire_id (emissions s (e # es))) @ map ident (events s))"
      by (simp add: em)
    from 1 2 show ?thesis ..
  qed
qed

lemma notifications_of_emissions:
  "map n_at (notifications (run s evs)) =
     rev (map fire_at (emissions s evs)) @ map n_at (notifications s)"
proof (induction evs arbitrary: s)
  case Nil
  show ?case by simp
next
  case (Cons e es)
  from emitting_cases [of s e] show ?case
  proof
    assume "emitting s e = []"
    with Cons.IH [of "step s e"] show ?thesis
      by (simp add: emitting_step)
  next
    assume "\<exists>f tm rest. e = Fire f \<and> emitting s e = [f] \<and> timers s = tm # rest
      \<and> due tm \<le> fire_at f \<and> step s e = emit f tm (s\<lparr>timers := rest\<rparr>)"
    then obtain f tm rest where em: "emitting s e = [f]"
      and st: "step s e = emit f tm (s\<lparr>timers := rest\<rparr>)"
      by blast
    with Cons.IH [of "step s e"] show ?thesis
      by (simp add: emit_fields)
  qed
qed

lemma log_reach:
  "map timestamp (events (run init evs)) = take 50 (rev (map fire_date (emissions init evs)))"
  "map ident (events (run init evs)) = take 50 (rev (map fire_id (emissions init evs)))"
  using log_of_emissions [of init evs] by (simp_all add: init_def)

lemma events_descending:
  assumes "sorted (map fire_date (emissions init evs))"
  shows "sorted_wrt (\<lambda>a b. b \<le> a) (map timestamp (events (run init evs)))"
proof -
  from assms have "sorted_wrt (\<lambda>a b. b \<le> a) (rev (map fire_date (emissions init evs)))"
    by (simp add: sorted_wrt_rev)
  then have "sorted_wrt (\<lambda>a b. b \<le> a) (take 50 (rev (map fire_date (emissions init evs))))"
    by (rule sorted_wrt_take)
  then show ?thesis
    by (simp only: log_reach)
qed

text \<open>
  C8. In every state reached from the initial one, the live history has at most 100
  entries, the session history at most 480 and the event log at most 50. The log holds
  the latest 50 runs of the timer callback, newest first; when React runs their updaters
  in the order they were queued, under a clock that never goes back, the timestamps
  descend. The updater of the session aggregator keeps the last 480 entries of the
  history with the value it reads appended (the oldest go first), and the timer callback
  puts the new event in front and keeps the first 50.
\<close>

theorem bounded_buffers:
  "length (history (run init evs)) \<le> 100
   \<and> length (sessionHistory (run init evs)) \<le> 480
   \<and> length (events (run init evs)) \<le> 50
   \<and> map ident (events (run init evs)) = take 50 (rev (map fire_id (emissions init evs)))
   \<and> (sorted (map fire_date (emissions init evs)) \<longrightarrow>
        sorted_wrt (\<lambda>a b. b \<le> a) (map timestamp (events (run init evs))))
   \<and> sessionHistory (session_updater s) =
        drop (length (sessionHistory s) + 1 - 480) (sessionHistory s @ [sessionPeakRef s])
   \<and> events (emit f tm s) =
        take 50 (\<lparr>ident = fire_id f, timestamp = fire_date f, db = eventPeakRef s,
                  label = getDbLabel (eventPeakRef s)\<rparr> # events s)"
proof -
  have "length (history init) \<le> 100" "length (sessionHistory init) \<le> 480"
    "length (events init) \<le> 50"
    by (simp_all add: init_def)
  from length_run [OF this, of evs] events_descending [of evs] log_reach(2) [of evs]
  show ?thesis
    by (simp add: session_updater_def Let_def emit_fields)
qed

theorem bounded_buffers_witness:
  "map fire_date (emissions init late_render) = [14500, 21001]
   \<and> map timestamp (events (run init late_render)) = [21001, 14500]
   \<and> map ident (events (run init late_render)) = [''k3x9q2m1z'', ''p7c4w1d8s'']
   \<and> length (history (run init late_render)) = 100
   \<and> sessionHistory (run init late_render) = [0]
   \<and> sorted_wrt (\<lambda>a b. b \<le> a) (map timestamp (events (run init late_render)))"
  using bounded_buffers [of late_render]
  by (simp add: late_render_def clock_ok_def eval_defs)

section \<open>Cooldown (C2)\<close>

lemma emissions_spaced:
  assumes "run_inv T s" and "clock_ok T evs"
  shows "(\<forall>f\<in>set (emissions s evs). fire_at f > lastNotifyTime s + 8000)
    \<and> sorted_wrt (\<lambda>a b. fire_at b - fire_now a > 8000) (emissions s evs)"
  using assms
proof (induction evs arbitrary: s T)
  case Nil
  show ?case by simp
next
  case (Cons e es)
  from Cons.prems have so: "sorted (T # stamps e)"
    and inv': "run_inv (last (T # stamps e)) (step s e)"
    and ok': "clock_ok (last (T # stamps e)) es"
    by (simp_all add: clock_ok_Cons run_inv_step del: last.simps)
  note IH = Cons.IH [OF inv' ok']
  from emitting_cases [of s e] show ?case
  proof
    assume none: "emitting s e = []"
    with IH show ?thesis
      by (simp add: emitting_step)
  next
    assume "\<exists>f tm rest. e = Fire f \<and> emitting s e = [f] \<and> timers s = tm # rest
      \<and> due tm \<le> fire_at f \<and> step s e = emit f tm (s\<lparr>timers := rest\<rparr>)"
    then obtain f tm rest where e: "e = Fire f" and em: "emitting s e = [f]"
      and tm: "timers s = tm # rest" and d: "due tm \<le> fire_at f"
      and st: "step s e = emit f tm (s\<lparr>timers := rest\<rparr>)"
      by blast
    from Cons.prems(1) tm have "due tm > lastNotifyTime s + 8000"
      by (simp add: run_inv_def time_inv_def)
    with d have f: "fire_at f > lastNotifyTime s + 8000" by simp
    from so e have o: "fire_at f \<le> fire_now f" by simp
    have l: "lastNotifyTime (step s e) = fire_now f"
      by (simp add: st emit_fields)
    from IH l have later: "\<forall>g\<in>set (emissions (step s e) es). fire_at g > fire_now f + 8000"
      and sp: "sorted_wrt (\<lambda>a b. fire_at b - fire_now a > 8000) (emissions (step s e) es)"
      by simp_all
    from later f o have "\<forall>g\<in>set (emissions (step s e) es). fire_at g > lastNotifyTime s + 8000"
      by auto
    with f later sp show ?thesis
      by (auto simp: em)
  qed
qed

lemma spacing_reach:
  assumes "clock_ok 0 evs"
  shows "sorted_wrt (\<lambda>a b. a - b \<ge> 7000) (map n_at (notifications (run init evs)))"
    and "sorted_wrt (\<lambda>a b. fire_at b - fire_now a \<ge> 7000) (emissions init evs)"
proof -
  have i: "run_inv 0 init"
    by (simp add: run_inv_def pending_inv_init time_inv_init)
  from run_inv_reach [OF assms] obtain T where "run_inv T (run init evs)" ..
  then have n: "sorted_wrt (\<lambda>a b. a - b > 8000) (map n_at (notifications (run init evs)))"
    by (simp add: run_inv_def time_inv_def)
  from n show "sorted_wrt (\<lambda>a b. a - b \<ge> 7000) (map n_at (notifications (run init evs)))"
    by (rule sorted_wrt_mono_rel [rotated]) simp
  from emissions_spaced [OF i assms]
  have "sorted_wrt (\<lambda>a b. fire_at b - fire_now a > 8000) (emissions init evs)"
    by simp
  then show "sorted_wrt (\<lambda>a b. fire_at b - fire_now a \<ge> 7000) (emissions init evs)"
    by (rule sorted_wrt_mono_rel [rotated]) simp
qed

text \<open>
  C2. A tick schedules an emission only when \<open>now - lastNotifyTime > 7000\<close>, and the timer
  callback sets \<open>lastNotifyTime\<close> to its own clock reading. Hence, in every execution
  from the initial state whose clock never goes back, any two notifications are at least
  7000 ms apart, and so are any two runs of the timer callback, from the end of the
  earlier to the start of the later. Each run sends one notification and logs one event:
  the notifications are those of the runs, and the log holds the events of the latest
  50 runs.
\<close>

theorem cooldown_spacing:
  assumes "clock_ok 0 evs"
  shows "sorted_wrt (\<lambda>a b. a - b \<ge> 7000) (map n_at (notifications (run init evs)))
    \<and> sorted_wrt (\<lambda>a b. fire_at b - fire_now a \<ge> 7000) (emissions init evs)
    \<and> map n_at (notifications (run init evs)) = rev (map fire_at (emissions init evs))
    \<and> map ident (events (run init evs)) = take 50 (rev (map fire_id (emissions init evs)))
    \<and> (timers (update c d s) \<noteq> timers s \<longrightarrow> now c - lastNotifyTime s > 7000)
    \<and> lastNotifyTime (emit f tm s) = fire_now f"
proof -
  have "now c - lastNotifyTime s > 7000" if "timers (update c d s) \<noteq> timers s"
    using that by (simp add: update_timers qualifies_def split: if_splits)
  moreover have "map n_at (notifications (run init evs)) = rev (map fire_at (emissions init evs))"
    using notifications_of_emissions [of init evs] by (simp add: init_def)
  ultimately show ?thesis
    using spacing_reach [OF assms] by (auto simp: emit_fields log_reach)
qed

theorem cooldown_spacing_witness:
  "clock_ok 0 suppressed_second
   \<and> map n_at (notifications (run init suppressed_second)) = [13000]
   \<and> map fire_at (emissions init suppressed_second) = [13000]
   \<and> clock_ok 0 late_render
   \<and> map n_at (notifications (run init late_render)) = [21001, 13000]
   \<and> map fire_now (emissions init late_render) = [13000, 21001]
   \<and> sorted_wrt (\<lambda>a b. a - b \<ge> 7000) (map n_at (notifications (run init late_render)))"
  using cooldown_spacing [of late_render] cooldown_spacing [of suppressed_second]
  by (simp add: late_render_def suppressed_second_def clock_ok_def eval_defs)

section \<open>Pending emission (C3, C10)\<close>

lemma all_low_run:
  "all_low s lows \<Longrightarrow>
     timers (run s lows) = timers s \<and> eventPeakRef (run s lows) = eventPeakRef s
     \<and> events (run s lows) = events s \<and> notifications (run s lows) = notifications s
     \<and> isEventOccurring (run s lows) = isEventOccurring s"
proof (induction lows arbitrary: s)
  case Nil
  show ?case by simp
next
  case (Cons e es)
  from Cons.prems obtain c d where e: "e = Tick c d" and low: "level_of s d \<le> thresholdRef s"
    and rest: "all_low (step s e) es"
    by (cases e) auto
  from low have "timers (step s e) = timers s" "eventPeakRef (step s e) = eventPeakRef s"
    "events (step s e) = events s" "notifications (step s e) = notifications s"
    "isEventOccurring (step s e) = isEventOccurring s"
    by (simp_all add: e update_timers update_eventPeak update_keeps update_occurring)
  with Cons.IH [OF rest] show ?case by simp
qed

lemma occurring_step:
  assumes "isEventOccurring s" and "\<not> is_fire e"
  shows "timers (step s e) = timers s \<and> isEventOccurring (step s e)
    \<and> events (step s e) = events s \<and> notifications (step s e) = notifications s"
proof (cases e)
  case (Tick c d)
  with assms(1) show ?thesis
    by (simp add: update_timers update_occurring update_keeps qualifies_def)
next
  case (Fire f)
  with assms(2) show ?thesis by simp
qed (use assms in \<open>simp_all add: session_tick_def session_updater_def Let_def settings_effect_def cleanup_def\<close>)

lemma occurring_run:
  "isEventOccurring s \<Longrightarrow> \<forall>e\<in>set mid. \<not> is_fire e \<Longrightarrow>
     timers (run s mid) = timers s \<and> isEventOccurring (run s mid)
     \<and> events (run s mid) = events s \<and> notifications (run s mid) = notifications s"
proof (induction mid arbitrary: s)
  case Nil
  then show ?case by simp
next
  case (Cons e es)
  from Cons.prems have st: "timers (step s e) = timers s \<and> isEventOccurring (step s e)
    \<and> events (step s e) = events s \<and> notifications (step s e) = notifications s"
    by (simp add: occurring_step)
  with Cons.prems Cons.IH [of "step s e"] show ?case by simp
qed

lemma fire_due:
  assumes "timers s = [tm]" and "due tm \<le> fire_at f"
  shows "step s (Fire f) = emit f tm (s\<lparr>timers := []\<rparr>)"
  using assms by simp

lemma pending_reach: "pending_inv (run init evs)"
  by (simp add: pending_inv_run pending_inv_init)

text \<open>
  C3. When a tick above the threshold meets the qualification condition in a reachable
  state, it marks the episode and schedules one emission, due 1000 ms after the tick and
  holding the duration limit of that tick. Whatever happens before the timer runs, the
  callback reads the event peak as it is then, calls the notifier with the title
  'Sustained Noise Detected!' and the body 'Level reached {peak} dB for {limit}+ sec.',
  puts one event with that peak and its band label in front of the log cut at 50, sets
  \<open>lastNotifyTime\<close> to its clock reading, and resets \<open>isEventOccurring\<close> and the peak.
\<close>
theorem emission_after_qualification:
  fixes pre mid :: "event list" and c :: clock and d :: "real list" and f :: fire
  defines "s \<equiv> run init pre"
  defines "s1 \<equiv> update c d s"
  defines "s2 \<equiv> run s1 mid"
  defines "s3 \<equiv> step s2 (Fire f)"
  assumes above: "level_of s d > thresholdRef s" and q: "qualifies c s"
    and mid: "\<forall>e\<in>set mid. \<not> is_fire e"
    and late: "now_dur c + 1000 \<le> fire_at f"
  shows "timers s1 = [\<lparr>due = now_dur c + 1000, limit = durationRef s\<rparr>]
    \<and> isEventOccurring s1
    \<and> notifications s3 =
        \<lparr>n_at = fire_at f, title = ''Sustained Noise Detected!'',
         body = [Lit ''Level reached '', Num (real_of_int (eventPeakRef s2)),
                 Lit '' dB for '', Num (durationRef s), Lit ''+ sec.'']\<rparr> # notifications s
    \<and> events s3 =
        take 50 (\<lparr>ident = fire_id f, timestamp = fire_date f, db = eventPeakRef s2,
                  label = getDbLabel (eventPeakRef s2)\<rparr> # events s)
    \<and> lastNotifyTime s3 = fire_now f
    \<and> \<not> isEventOccurring s3
    \<and> eventPeakRef s3 = 0
    \<and> timers s3 = []"
proof -
  from q have "\<not> isEventOccurring s"
    by (simp add: qualifies_def)
  with pending_reach [of pre] have "timers s = []"
    by (simp add: pending_inv_def s_def)
  with above q have t1: "timers s1 = [\<lparr>due = now_dur c + 1000, limit = durationRef s\<rparr>]"
    and o1: "isEventOccurring s1"
    by (simp_all add: s1_def update_timers update_occurring)
  have k1: "events s1 = events s" "notifications s1 = notifications s"
    by (simp_all add: s1_def update_keeps)
  from occurring_run [OF o1 mid] have t2: "timers s2 = timers s1"
    and k2: "events s2 = events s1" "notifications s2 = notifications s1"
    by (simp_all add: s2_def)
  have "s3 = emit f \<lparr>due = now_dur c + 1000, limit = durationRef s\<rparr> (s2\<lparr>timers := []\<rparr>)"
    unfolding s3_def using t1 t2 late by (intro fire_due) simp_all
  then show ?thesis
    using t1 o1 k1 k2 by (simp add: emit_fields)
qed

theorem emission_after_qualification_witness:
  "level_of (run init [Configure (with_threshold 50), Tick (instant 10000) (tone (1 / 10))])
      (tone (1 / 10)) = 60
   \<and> qualifies (instant 12000)
       (run init [Configure (with_threshold 50), Tick (instant 10000) (tone (1 / 10))])
   \<and> eventPeakRef (run init qualified_run) = 60
   \<and> timers (run init qualified_run) = [\<lparr>due = 13000, limit = 2\<rparr>]
   \<and> map db (events (run init
        (qualified_run @ [Tick (instant 12500) (tone 1), Fire (fire_at_time 13000)]))) = [80]
   \<and> map body (notifications (run init
        (qualified_run @ [Tick (instant 12500) (tone 1), Fire (fire_at_time 13000)]))) =
        [[Lit ''Level reached '', Num 80, Lit '' dB for '', Num 2, Lit ''+ sec.'']]"
  using emission_after_qualification
    [of "[Configure (with_threshold 50), Tick (instant 10000) (tone (1 / 10))]"
        "tone (1 / 10)" "instant 12000" "[Tick (instant 12500) (tone 1)]" "fire_at_time 13000"]
  by (simp add: qualified_run_def eval_defs level_of_def)

text \<open>
  C10. In every reachable state at most one emission is pending, and one is pending
  exactly when \<open>isEventOccurring\<close> holds. A pending emission survives any run of ticks
  at or below the threshold; when the timer then runs, exactly one notification is sent
  and one event is logged, nothing stays pending, and a further run of the timer
  callback has nothing to do.
\<close>
theorem pending_emission_fires:
  fixes evs lows :: "event list" and f f' :: fire
  defines "s \<equiv> run init evs"
  defines "s3 \<equiv> step (run s lows) (Fire f)"
  shows "length (timers s) \<le> 1
    \<and> (isEventOccurring s \<longleftrightarrow> timers s \<noteq> [])
    \<and> (timers s \<noteq> [] \<and> all_low s lows \<and> due (hd (timers s)) \<le> fire_at f \<longrightarrow>
         timers (run s lows) = timers s
         \<and> notifications s3 =
             \<lparr>n_at = fire_at f, title = ''Sustained Noise Detected!'',
              body = [Lit ''Level reached '', Num (real_of_int (eventPeakRef s)),
                      Lit '' dB for '', Num (limit (hd (timers s))), Lit ''+ sec.'']\<rparr>
             # notifications s
         \<and> events s3 =
             take 50 (\<lparr>ident = fire_id f, timestamp = fire_date f, db = eventPeakRef s,
                       label = getDbLabel (eventPeakRef s)\<rparr> # events s)
         \<and> timers s3 = [] \<and> \<not> isEventOccurring s3
         \<and> step s3 (Fire f') = s3)"
proof -
  have p: "pending_inv s"
    by (simp add: s_def pending_reach)
  have "timers (run s lows) = timers s
         \<and> notifications s3 =
             \<lparr>n_at = fire_at f, title = ''Sustained Noise Detected!'',
              body = [Lit ''Level reached '', Num (real_of_int (eventPeakRef s)),
                      Lit '' dB for '', Num (limit (hd (timers s))), Lit ''+ sec.'']\<rparr>
             # notifications s
         \<and> events s3 =
             take 50 (\<lparr>ident = fire_id f, timestamp = fire_date f, db = eventPeakRef s,
                       label = getDbLabel (eventPeakRef s)\<rparr> # events s)
         \<and> timers s3 = [] \<and> \<not> isEventOccurring s3
         \<and> step s3 (Fire f') = s3"
    if ne: "timers s \<noteq> []" and low: "all_low s lows" and late: "due (hd (timers s)) \<le> fire_at f"
  proof -
    from p ne obtain tm where tm: "timers s = [tm]"
      by (cases "timers s") (auto simp: pending_inv_def)
    note k = all_low_run [OF low]
    from k tm late have "s3 = emit f tm ((run s lows)\<lparr>timers := []\<rparr>)"
      unfolding s3_def by (intro fire_due) simp_all
    then have f3: "notifications s3 =
             \<lparr>n_at = fire_at f, title = ''Sustained Noise Detected!'',
              body = [Lit ''Level reached '', Num (real_of_int (eventPeakRef s)),
                      Lit '' dB for '', Num (limit tm), Lit ''+ sec.'']\<rparr>
             # notifications s"
      "events s3 =
             take 50 (\<lparr>ident = fire_id f, timestamp = fire_date f, db = eventPeakRef s,
                       label = getDbLabel (eventPeakRef s)\<rparr> # events s)"
      "timers s3 = []" "\<not> isEventOccurring s3"
      using k by (simp_all add: emit_fields)
    from f3(3) have "step s3 (Fire f') = s3" by simp
    with f3 k tm show ?thesis by simp
  qed
  with p show ?thesis
    by (simp add: pending_inv_def)
qed

theorem pending_emission_fires_witness:
  "timers (run init qualified_run) = [\<lparr>due = 13000, limit = 2\<rparr>]
   \<and> all_low (run init qualified_run)
        [Tick (instant 12016) (tone 0), Tick (instant 12032) (tone 0)]
   \<and> map db (events (step (run (run init qualified_run)
        [Tick (instant 12016) (tone 0), Tick (instant 12032) (tone 0)])
        (Fire (fire_at_time 13000)))) = [60]
   \<and> length (notifications (step (run (run init qualified_run)
        [Tick (instant 12016) (tone 0), Tick (instant 12032) (tone 0)])
        (Fire (fire_at_time 13000)))) = 1"
  using pending_emission_fires [of qualified_run
    "[Tick (instant 12016) (tone 0), Tick (instant 12032) (tone 0)]" "fire_at_time 13000"]
  by (simp add: qualified_run_def eval_defs level_of_def)


section \<open>Sustain contiguity (C1)\<close>

lemma step_loudStart_other:
  "\<not> is_tick e \<Longrightarrow> loudStartTimeRef (step s e) = loudStartTimeRef s"
  by (cases e) (simp_all add: emit_fields session_tick_def session_updater_def Let_def settings_effect_def
      cleanup_def split: list.splits)

lemma all_loud_tail: "all_loud s (e # es) \<Longrightarrow> all_loud (step s e) es"
  by simp

lemma loud_run_keeps_start:
  "loudStartTimeRef s = Some u \<Longrightarrow> u \<noteq> 0 \<Longrightarrow> all_loud s mid \<Longrightarrow>
     loudStartTimeRef (run s mid) = Some u"
proof (induction mid arbitrary: s)
  case Nil
  then show ?case by simp
next
  case (Cons e es)
  have "loudStartTimeRef (step s e) = Some u"
  proof (cases "is_tick e")
    case True
    then obtain c d where "e = Tick c d" by (cases e) simp_all
    with Cons.prems show ?thesis
      by (simp add: update_loudStart startOf_def)
  next
    case False
    with Cons.prems(1) show ?thesis
      by (simp add: step_loudStart_other)
  qed
  with Cons.prems Cons.IH [of "step s e"] show ?case by simp
qed

lemma loud_run_start:
  "loudStartTimeRef s = None \<Longrightarrow> all_loud s mid \<Longrightarrow>
     loudStartTimeRef (run s mid) = first_tick mid
     \<and> (\<forall>t. first_tick mid = Some t \<longrightarrow> t \<noteq> 0)"
proof (induction mid arbitrary: s)
  case Nil
  then show ?case by simp
next
  case (Cons e es)
  note rest = all_loud_tail [OF Cons.prems(2)]
  show ?case
  proof (cases "is_tick e")
    case True
    then obtain c d where e: "e = Tick c d" by (cases e) simp_all
    with Cons.prems have "loudStartTimeRef (step s e) = Some (now_start c)"
      and z: "now_start c \<noteq> 0"
      by (simp_all add: update_loudStart startOf_def)
    then have "loudStartTimeRef (run (step s e) es) = Some (now_start c)"
      using rest by (intro loud_run_keeps_start)
    with z e show ?thesis by simp
  next
    case False
    with Cons.prems(1) have "loudStartTimeRef (step s e) = None"
      by (simp add: step_loudStart_other)
    from Cons.IH [OF this rest] False show ?thesis
      by (cases e) simp_all
  qed
qed

text \<open>
  C1. A tick whose reading is at or below the threshold clears \<open>loudStartTime\<close>, sets
  the alert flag to false and schedules nothing. If, after it, every tick of a run
  \<open>mid\<close> is above the threshold and a further tick then schedules an emission, the time
  from the start reading of the first tick after the low one to that tick is at least
  the duration threshold: time above the threshold before the low tick does not count.
\<close>
theorem sustain_contiguity:
  fixes s0 :: state and c0 cN :: clock and d0 dN :: "real list" and mid :: "event list"
  defines "s \<equiv> update c0 d0 s0"
  assumes low: "level_of s0 d0 \<le> thresholdRef s0"
  shows "loudStartTimeRef s = None \<and> \<not> isAlerting s \<and> timers s = timers s0
    \<and> (all_loud s mid \<and> timers (update cN dN (run s mid)) \<noteq> timers (run s mid) \<longrightarrow>
         durationRef (run s mid)
           \<le> real_of_int (now_dur cN
                - (case first_tick mid of None \<Rightarrow> now_start cN | Some t \<Rightarrow> t)) / 1000)"
proof -
  from low have a: "loudStartTimeRef s = None" "\<not> isAlerting s" "timers s = timers s0"
    by (simp_all add: s_def update_loudStart update_alerting update_timers)
  have "durationRef (run s mid)
           \<le> real_of_int (now_dur cN
                - (case first_tick mid of None \<Rightarrow> now_start cN | Some t \<Rightarrow> t)) / 1000"
    if loud: "all_loud s mid"
      and sched: "timers (update cN dN (run s mid)) \<noteq> timers (run s mid)"
  proof -
    from sched have q: "qualifies cN (run s mid)"
      by (simp add: update_timers split: if_splits)
    from loud_run_start [OF a(1) loud]
    have st: "loudStartTimeRef (run s mid) = first_tick mid"
      and nz: "\<And>t. first_tick mid = Some t \<Longrightarrow> t \<noteq> 0"
      by simp_all
    have "startOf cN (run s mid) = (case first_tick mid of None \<Rightarrow> now_start cN | Some t \<Rightarrow> t)"
    proof (cases "first_tick mid")
      case None
      with st show ?thesis by (simp add: startOf_def)
    next
      case (Some t)
      with st nz [of t] show ?thesis
        by (simp add: startOf_def)
    qed
    with q show ?thesis
      by (simp add: qualifies_def sustainedDuration_def)
  qed
  with a show ?thesis by simp
qed

theorem sustain_contiguity_witness:
  "level_of (run init interrupted) (tone 0) = 0
   \<and> thresholdRef (run init interrupted) = 50
   \<and> all_loud (update (instant 11916) (tone 0) (run init interrupted))
        [Tick (instant 12000) (tone 1), Tick (instant 13000) (tone 1)]
   \<and> timers (run (update (instant 11916) (tone 0) (run init interrupted))
        [Tick (instant 12000) (tone 1), Tick (instant 13000) (tone 1)]) = []
   \<and> timers (update (instant 14000) (tone 1)
        (run (update (instant 11916) (tone 0) (run init interrupted))
          [Tick (instant 12000) (tone 1), Tick (instant 13000) (tone 1)]))
      = [\<lparr>due = 15000, limit = 2\<rparr>]
   \<and> (2::real) \<le> real_of_int (14000 - 12000) / 1000"
  using sustain_contiguity [where ?s0.0 = "run init interrupted" and ?d0.0 = "tone 0"
    and ?c0.0 = "instant 11916" and cN = "instant 14000" and dN = "tone 1"
    and mid = "[Tick (instant 12000) (tone 1), Tick (instant 13000) (tone 1)]"]
  by (simp add: interrupted_def eval_defs level_of_def)

end
